theory Spec2Isabelle
  imports Main "HOL-Library.Multiset" "HOL-Library.Sublist"
begin

section \<open>The Caesar transform\<close>

text \<open>
  A JavaScript string is a sequence of UTF-16 code units; a code unit is modelled by its
  numeric value (what \<^verbatim>\<open>charCodeAt\<close> returns). Numbers are modelled as integers:
  the arithmetic of \<^verbatim>\<open>caesarCipher\<close> is exact on every integer shift below \<open>2^53\<close>.
  The same function is defined, with the same text, in the server, in the thread worker
  and in the child process script.
\<close>

type_synonym jsstring = "int list"

definition js :: "string \<Rightarrow> jsstring" where
  \<comment> \<open>an ASCII literal as a JavaScript string\<close>
  "js s = map (\<lambda>c. int (of_char c)) s"

definition js_rem :: "int \<Rightarrow> int \<Rightarrow> int" where
  \<comment> \<open>the operator \<^verbatim>\<open>%\<close>: the remainder takes the sign of the dividend\<close>
  "js_rem a b = (if a < 0 then - ((- a) mod \<bar>b\<bar>) else a mod \<bar>b\<bar>)"

definition fromCharCode :: "int \<Rightarrow> int" where
  \<comment> \<open>\<^verbatim>\<open>String.fromCharCode\<close> of one integer: one code unit, the argument modulo \<open>2^16\<close>\<close>
  "fromCharCode n = n mod 65536"

definition is_letter :: "int \<Rightarrow> bool" where
  \<comment> \<open>the regular expression \<^verbatim>\<open>/[a-zA-Z]/\<close> on one code unit\<close>
  "is_letter c = ((97 \<le> c \<and> c \<le> 122) \<or> (65 \<le> c \<and> c \<le> 90))"

definition shift_char :: "int \<Rightarrow> int \<Rightarrow> int" where
  \<comment> \<open>the replacement callback; \<^verbatim>\<open>char <= 'Z'\<close> compares code units, \<open>'Z'\<close> is 90\<close>
  "shift_char actualShift c =
     (let start = (if c \<le> 90 then 65 else 97)
      in fromCharCode (js_rem (c - start + actualShift + 26) 26 + start))"

definition caesarCipher :: "jsstring \<Rightarrow> int \<Rightarrow> bool \<Rightarrow> jsstring" where
  "caesarCipher text shift decrypt =
     (let actualShift = (if decrypt then - shift else shift)
      in map (\<lambda>c. if is_letter c then shift_char actualShift c else c) text)"

section \<open>Jobs, results and the environment\<close>

text \<open>
  A job is one element of the \<^verbatim>\<open>files\<close> array of a request: the fields the executors
  read are \<^verbatim>\<open>originalname\<close> and \<^verbatim>\<open>path\<close>. The sequential executor pushes results
  without an \<^verbatim>\<open>operation\<close> field, the thread worker and the child process push it.
\<close>

record file_job =
  originalname :: string
  path :: string

record file_result =
  originalName :: string
  processedPath :: string
  size_r :: nat
  operation_r :: "string option"

record outcome =
  results :: "file_result list"
  processingTime :: int
  method_name :: string

datatype io_error = ReadFailed string | WriteFailed string

text \<open>
  The promise of a worker or of a child is rejected either by the \<^verbatim>\<open>close\<close> handler of a
  child, with the exit status, or with an error: the one of an \<^verbatim>\<open>error\<close> event, or the
  one the \<^verbatim>\<open>try\<close> block of the \<^verbatim>\<open>close\<close> handler caught.
\<close>

datatype rejection = ProcessExited int | Thrown string

text \<open>
  The host is what the code takes from Node and the operating system: the number of
  cores \<^verbatim>\<open>os.cpus().length\<close>, the platform's \<^verbatim>\<open>path.join\<close> and \<^verbatim>\<open>path.basename\<close>,
  which output paths \<^verbatim>\<open>fs.writeFile\<close> accepts, the successive readings of
  \<^verbatim>\<open>Date.now()\<close>, the successive tokens \<^verbatim>\<open>Math.random().toString(36).substr(2, 9)\<close>
  and the order in which concurrent workers report: shard \<open>i\<close> reports before shard \<open>j\<close>
  when \<open>arrival i < arrival j\<close>, and in shard order when the two are equal.
  The host also holds the faults of the workers and of the children, by shard index:
  \<open>worker_error i = Some (k, e)\<close> when the worker of shard \<open>i\<close> emits the event
  \<^verbatim>\<open>error\<close> with the message \<open>e\<close> once its loop is through \<open>k\<close> files of the shard (or
  through the whole shard, if that is shorter) and before it posts a message;
  \<open>spawn_error i = Some e\<close> when the child of shard \<open>i\<close> cannot be spawned, so that
  \<^verbatim>\<open>spawn\<close> throws inside the executor of the promise or the child emits the event
  \<^verbatim>\<open>error\<close>; \<open>parse_error i = Some e\<close> when the \<^verbatim>\<open>try\<close> block of the \<^verbatim>\<open>close\<close> handler
  of child \<open>i\<close> throws, in \<^verbatim>\<open>JSON.parse\<close> or in the push of the parsed list.
  The world is the state the executors change: the disk (a path holds the string that
  reading it as UTF-8 returns, or nothing when reading it fails), how many clock readings
  and random tokens were drawn, the writes made so far and the shards handed to a worker
  or a child so far, oldest first.
\<close>

record host =
  cpus :: nat
  path_join :: "string \<Rightarrow> string \<Rightarrow> string"
  path_basename :: "string \<Rightarrow> string"
  writable :: "string \<Rightarrow> bool"
  clock :: "nat \<Rightarrow> int"
  random :: "nat \<Rightarrow> string"
  arrival :: "nat \<Rightarrow> nat"
  worker_error :: "nat \<Rightarrow> (nat \<times> string) option"
  spawn_error :: "nat \<Rightarrow> string option"
  parse_error :: "nat \<Rightarrow> string option"

record world =
  disk :: "string \<rightharpoonup> jsstring"
  ticks :: nat
  draws :: nat
  written :: "(string \<times> jsstring) list"
  spawned :: "file_job list list"

definition readFile :: "world \<Rightarrow> string \<Rightarrow> io_error + jsstring" where
  "readFile w p = (case disk w p of None \<Rightarrow> Inl (ReadFailed p) | Some content \<Rightarrow> Inr content)"

definition writeFile :: "host \<Rightarrow> world \<Rightarrow> string \<Rightarrow> jsstring \<Rightarrow> io_error + world" where
  "writeFile h w p content =
     (if writable h p
      then Inr (w\<lparr>disk := (disk w)(p \<mapsto> content), written := written w @ [(p, content)]\<rparr>)
      else Inl (WriteFailed p))"

definition Date_now :: "host \<Rightarrow> world \<Rightarrow> int \<times> world" where
  "Date_now h w = (clock h (ticks w), w\<lparr>ticks := Suc (ticks w)\<rparr>)"

definition random_token :: "host \<Rightarrow> world \<Rightarrow> string \<times> world" where
  "random_token h w = (random h (draws w), w\<lparr>draws := Suc (draws w)\<rparr>)"

fun digits :: "nat \<Rightarrow> string" where
  "digits n = (if n < 10 then [''0123456789'' ! n]
               else digits (n div 10) @ [''0123456789'' ! (n mod 10)])"

declare digits.simps [simp del]

definition toString :: "int \<Rightarrow> string" where
  \<comment> \<open>an integer inside a template literal\<close>
  "toString i = (if i < 0 then CHR ''-'' # digits (nat (- i)) else digits (nat i))"

section \<open>The sequential executor\<close>

text \<open>
  \<^verbatim>\<open>sequential_step\<close> is the body of the \<^verbatim>\<open>try\<close> block of \<^verbatim>\<open>processSequentially\<close> for one
  file; the \<^verbatim>\<open>catch\<close> block logs the error and the loop goes on with the next file.
\<close>

definition sequential_step ::
  "host \<Rightarrow> world \<Rightarrow> file_job \<Rightarrow> string \<Rightarrow> int \<Rightarrow> (io_error + file_result) \<times> world" where
  "sequential_step h w file operation shift =
     (case readFile w (path file) of
        Inl e \<Rightarrow> (Inl e, w)
      | Inr content \<Rightarrow>
          (let processedContent = caesarCipher content shift (operation = ''decrypt'');
               (now, w1) = Date_now h w;
               outputPath = path_join h ''processed''
                              (operation @ ''_'' @ toString now @ ''_'' @ originalname file)
           in case writeFile h w1 outputPath processedContent of
                Inl e \<Rightarrow> (Inl e, w1)
              | Inr w2 \<Rightarrow>
                  (Inr \<lparr>originalName = originalname file, processedPath = outputPath,
                        size_r = length content, operation_r = None\<rparr>, w2)))"

fun sequential_loop ::
  "host \<Rightarrow> world \<Rightarrow> file_job list \<Rightarrow> string \<Rightarrow> int \<Rightarrow> file_result list \<times> world" where
  "sequential_loop h w [] operation shift = ([], w)"
| "sequential_loop h w (file # files) operation shift =
     (case sequential_step h w file operation shift of
        (Inl e, w1) \<Rightarrow> sequential_loop h w1 files operation shift
      | (Inr r, w1) \<Rightarrow>
          (case sequential_loop h w1 files operation shift of
             (rs, w2) \<Rightarrow> (r # rs, w2)))"

definition processSequentially ::
  "host \<Rightarrow> world \<Rightarrow> file_job list \<Rightarrow> string \<Rightarrow> int \<Rightarrow> outcome \<times> world" where
  "processSequentially h w files operation shift =
     (case Date_now h w of (startTime, w1) \<Rightarrow>
      case sequential_loop h w1 files operation shift of (rs, w2) \<Rightarrow>
      case Date_now h w2 of (endTime, w3) \<Rightarrow>
        (\<lparr>results = rs, processingTime = endTime - startTime, method_name = ''Sequential''\<rparr>, w3))"

section \<open>Shards\<close>

text \<open>
  Both parallel executors cut the job list with the same loop: slice \<open>i\<close> is
  \<^verbatim>\<open>files.slice(i * filesPerWorker, (i + 1) * filesPerWorker)\<close>, and the loop stops at the
  first empty slice. \<^verbatim>\<open>Math.ceil(a / b)\<close> is exact on array lengths; with no worker
  (\<open>b = 0\<close>) JavaScript computes \<^verbatim>\<open>Infinity\<close> or \<^verbatim>\<open>NaN\<close>, which the loop, running zero
  times, never reads.
\<close>

definition ceil_div :: "nat \<Rightarrow> nat \<Rightarrow> nat" where
  "ceil_div a b = (a + b - 1) div b"

definition slice :: "'a list \<Rightarrow> nat \<Rightarrow> nat \<Rightarrow> 'a list" where
  "slice xs start stop = take (stop - start) (drop start xs)"

function shards :: "'a list \<Rightarrow> nat \<Rightarrow> nat \<Rightarrow> nat \<Rightarrow> 'a list list" where
  "shards files numWorkers filesPerWorker i =
     (if i < numWorkers
      then (if slice files (i * filesPerWorker) ((i + 1) * filesPerWorker) = [] then []
            else slice files (i * filesPerWorker) ((i + 1) * filesPerWorker)
                   # shards files numWorkers filesPerWorker (i + 1))
      else [])"
  by pat_completeness auto
termination
  by (relation "measure (\<lambda>(files, numWorkers, filesPerWorker, i). numWorkers - i)") auto

declare shards.simps [simp del]

definition partition_files :: "'a list \<Rightarrow> nat \<Rightarrow> 'a list list" where
  "partition_files files numWorkers =
     (let filesPerWorker = ceil_div (length files) numWorkers
      in shards files numWorkers filesPerWorker 0)"

section \<open>The thread worker and the child process\<close>

text \<open>
  The two scripts run the same loop over their shard; \<^verbatim>\<open>worker_step\<close> is its body. The
  \<^verbatim>\<open>try\<close> block encloses the whole loop: the first failure ends it. The worker then posts
  the empty list; the child prints the empty list and exits with status 1.
\<close>

definition worker_step ::
  "host \<Rightarrow> world \<Rightarrow> file_job \<Rightarrow> string \<Rightarrow> int \<Rightarrow> (io_error + file_result) \<times> world" where
  "worker_step h w file operation shift =
     (case readFile w (path file) of
        Inl e \<Rightarrow> (Inl e, w)
      | Inr content \<Rightarrow>
          (let processedContent = caesarCipher content shift (operation = ''decrypt'');
               (now, w1) = Date_now h w;
               (token, w2) = random_token h w1;
               outputPath = path_join h ''processed''
                              (operation @ ''_'' @ toString now @ ''_'' @ token @ ''_''
                                 @ originalname file)
           in case writeFile h w2 outputPath processedContent of
                Inl e \<Rightarrow> (Inl e, w2)
              | Inr w3 \<Rightarrow>
                  (Inr \<lparr>originalName = originalname file,
                        processedPath = path_basename h outputPath,
                        size_r = length content, operation_r = Some operation\<rparr>, w3)))"

fun worker_loop ::
  "host \<Rightarrow> world \<Rightarrow> file_job list \<Rightarrow> string \<Rightarrow> int \<Rightarrow> (io_error + file_result list) \<times> world" where
  "worker_loop h w [] operation shift = (Inr [], w)"
| "worker_loop h w (file # files) operation shift =
     (case worker_step h w file operation shift of
        (Inl e, w1) \<Rightarrow> (Inl e, w1)
      | (Inr r, w1) \<Rightarrow>
          (case worker_loop h w1 files operation shift of
             (Inl e, w2) \<Rightarrow> (Inl e, w2)
           | (Inr rs, w2) \<Rightarrow> (Inr (r # rs), w2)))"

definition processFiles_worker ::
  "host \<Rightarrow> world \<Rightarrow> file_job list \<Rightarrow> string \<Rightarrow> int \<Rightarrow> file_result list \<times> world" where
  \<comment> \<open>the message the worker posts\<close>
  "processFiles_worker h w files operation shift =
     (case worker_loop h w files operation shift of
        (Inl e, w1) \<Rightarrow> ([], w1)
      | (Inr rs, w1) \<Rightarrow> (rs, w1))"

definition processFiles_child ::
  "host \<Rightarrow> world \<Rightarrow> file_job list \<Rightarrow> string \<Rightarrow> int \<Rightarrow> (int \<times> file_result list) \<times> world" where
  \<comment> \<open>the exit status of the child and the list it prints\<close>
  "processFiles_child h w files operation shift =
     (case worker_loop h w files operation shift of
        (Inl e, w1) \<Rightarrow> ((1, []), w1)
      | (Inr rs, w1) \<Rightarrow> ((0, rs), w1))"


section \<open>The parallel executors\<close>

text \<open>
  Workers and children run concurrently in the code. Their file operations are run here
  shard after shard; their promises settle in the order of arrival of the host, which is
  any order: \<^verbatim>\<open>by_arrival\<close> sorts what the shards report by the arrival of their shard.
  \<^verbatim>\<open>Promise.all\<close> rejects with the first rejection; when every promise is resolved, the
  lists were pushed to \<^verbatim>\<open>results\<close> in the order of arrival.
\<close>

definition by_arrival :: "host \<Rightarrow> 'a list \<Rightarrow> 'a list" where
  "by_arrival h xs = map snd (sort_key (\<lambda>(i, x). arrival h i) (enumerate 0 xs))"

fun Promise_all :: "(rejection + 'a list) list \<Rightarrow> rejection + 'a list" where
  "Promise_all [] = Inr []"
| "Promise_all (Inl e # promises) = Inl e"
| "Promise_all (Inr pushed # promises) =
     (case Promise_all promises of Inl e \<Rightarrow> Inl e | Inr rs \<Rightarrow> Inr (pushed @ rs))"

text \<open>
  The promise of one worker: resolved by the handler of \<^verbatim>\<open>message\<close> with the list the
  worker posts, rejected by the handler of \<^verbatim>\<open>error\<close>. A worker whose loop fails before
  the fault of the host occurs has posted the empty list from its \<^verbatim>\<open>catch\<close> block.
\<close>

definition run_worker ::
  "host \<Rightarrow> world \<Rightarrow> nat \<Rightarrow> file_job list \<Rightarrow> string \<Rightarrow> int
     \<Rightarrow> (rejection + file_result list) \<times> world" where
  "run_worker h w i workerFiles operation shift =
     (case worker_error h i of
        None \<Rightarrow>
          (case processFiles_worker h w workerFiles operation shift of
             (posted, w1) \<Rightarrow> (Inr posted, w1))
      | Some (k, e) \<Rightarrow>
          (case worker_loop h w (take k workerFiles) operation shift of
             (Inl x, w1) \<Rightarrow> (Inr [], w1)
           | (Inr rs, w1) \<Rightarrow> (Inl (Thrown e), w1)))"

fun run_workers ::
  "host \<Rightarrow> world \<Rightarrow> nat \<Rightarrow> file_job list list \<Rightarrow> string \<Rightarrow> int
     \<Rightarrow> (rejection + file_result list) list \<times> world" where
  "run_workers h w i [] operation shift = ([], w)"
| "run_workers h w i (workerFiles # rest) operation shift =
     (case run_worker h (w\<lparr>spawned := spawned w @ [workerFiles]\<rparr>) i
             workerFiles operation shift of
        (promise, w1) \<Rightarrow>
          (case run_workers h w1 (i + 1) rest operation shift of
             (promises, w2) \<Rightarrow> (promise # promises, w2)))"

definition processWithWorkerThreads ::
  "host \<Rightarrow> world \<Rightarrow> file_job list \<Rightarrow> string \<Rightarrow> int \<Rightarrow> (rejection + outcome) \<times> world" where
  "processWithWorkerThreads h w files operation shift =
     (case Date_now h w of (startTime, w1) \<Rightarrow>
      let numWorkers = min (cpus h) (length files) in
      case run_workers h w1 0 (partition_files files numWorkers) operation shift of
        (promises, w2) \<Rightarrow>
          (case Promise_all (by_arrival h promises) of
             Inl e \<Rightarrow> (Inl e, w2)
           | Inr rs \<Rightarrow>
               (case Date_now h w2 of (endTime, w3) \<Rightarrow>
                  (Inr \<lparr>results = rs, processingTime = endTime - startTime,
                        method_name = ''Worker Threads''\<rparr>, w3))))"

text \<open>
  What the parent sees of one child: an error when it cannot be spawned, which rejects
  the promise and leaves the files untouched, or the event \<^verbatim>\<open>close\<close> with the exit
  status, once the list the child printed was collected.
  The \<^verbatim>\<open>close\<close> handler of a child pushes the parsed list when the status is 0 and its
  \<^verbatim>\<open>try\<close> block does not throw, and rejects otherwise.
\<close>

datatype child_event = Failed string | Closed int "file_result list"

definition run_child ::
  "host \<Rightarrow> world \<Rightarrow> nat \<Rightarrow> file_job list \<Rightarrow> string \<Rightarrow> int \<Rightarrow> child_event \<times> world" where
  "run_child h w i processFiles operation shift =
     (case spawn_error h i of
        Some e \<Rightarrow> (Failed e, w)
      | None \<Rightarrow>
          (case processFiles_child h w processFiles operation shift of
             ((code, printed), w1) \<Rightarrow> (Closed code printed, w1)))"

fun run_children ::
  "host \<Rightarrow> world \<Rightarrow> nat \<Rightarrow> file_job list list \<Rightarrow> string \<Rightarrow> int
     \<Rightarrow> child_event list \<times> world" where
  "run_children h w i [] operation shift = ([], w)"
| "run_children h w i (processFiles # rest) operation shift =
     (case run_child h (w\<lparr>spawned := spawned w @ [processFiles]\<rparr>) i
             processFiles operation shift of
        (event, w1) \<Rightarrow>
          (case run_children h w1 (i + 1) rest operation shift of
             (events, w2) \<Rightarrow> (event # events, w2)))"

definition settle :: "host \<Rightarrow> nat \<Rightarrow> child_event \<Rightarrow> rejection + file_result list" where
  "settle h i event =
     (case event of
        Failed e \<Rightarrow> Inl (Thrown e)
      | Closed code printed \<Rightarrow>
          if code = 0
          then (case parse_error h i of None \<Rightarrow> Inr printed | Some e \<Rightarrow> Inl (Thrown e))
          else Inl (ProcessExited code))"

fun settle_all :: "host \<Rightarrow> nat \<Rightarrow> child_event list \<Rightarrow> (rejection + file_result list) list" where
  "settle_all h i [] = []"
| "settle_all h i (event # events) = settle h i event # settle_all h (i + 1) events"

definition processWithChildProcesses ::
  "host \<Rightarrow> world \<Rightarrow> file_job list \<Rightarrow> string \<Rightarrow> int \<Rightarrow> (rejection + outcome) \<times> world" where
  "processWithChildProcesses h w files operation shift =
     (case Date_now h w of (startTime, w1) \<Rightarrow>
      let numProcesses = min (cpus h) (length files) in
      case run_children h w1 0 (partition_files files numProcesses) operation shift of
        (events, w2) \<Rightarrow>
          (case Promise_all (by_arrival h (settle_all h 0 events)) of
             Inl e \<Rightarrow> (Inl e, w2)
           | Inr rs \<Rightarrow>
               (case Date_now h w2 of (endTime, w3) \<Rightarrow>
                  (Inr \<lparr>results = rs, processingTime = endTime - startTime,
                        method_name = ''Child Processes''\<rparr>, w3))))"

section \<open>The route\<close>

text \<open>
  The body of a request to \<^verbatim>\<open>/process\<close>: \<^verbatim>\<open>files\<close> is absent when the field is missing
  or is not an array, \<^verbatim>\<open>shift\<close> defaults to 3. A response is the outcome with status 200,
  or a status, a message and, for status 500, the message of the error. The \<^verbatim>\<open>catch\<close>
  block of the route answers every rejection of an executor with status 500.
\<close>

record body =
  body_files :: "file_job list option"
  body_operation :: string
  body_method :: string
  body_shift :: "int option"

datatype response = Success outcome | Failure nat string "string option"

fun message :: "rejection \<Rightarrow> string" where
  "message (ProcessExited code) = ''Process exited with code '' @ toString code"
| "message (Thrown e) = e"

definition process_route :: "host \<Rightarrow> world \<Rightarrow> body \<Rightarrow> response \<times> world" where
  "process_route h w b =
     (let operation = body_operation b;
          shift = (case body_shift b of None \<Rightarrow> 3 | Some s \<Rightarrow> s)
      in case body_files b of
           None \<Rightarrow> (Failure 400 ''No files provided'' None, w)
         | Some files \<Rightarrow>
             if length files = 0 then (Failure 400 ''No files provided'' None, w)
             else if body_method b = ''multithreading'' then
               (case processWithWorkerThreads h w files operation shift of
                  (Inl e, w1) \<Rightarrow> (Failure 500 ''Error processing files'' (Some (message e)), w1)
                | (Inr result, w1) \<Rightarrow> (Success result, w1))
             else if body_method b = ''multiprocessing'' then
               (case processWithChildProcesses h w files operation shift of
                  (Inl e, w1) \<Rightarrow> (Failure 500 ''Error processing files'' (Some (message e)), w1)
                | (Inr result, w1) \<Rightarrow> (Success result, w1))
             else if body_method b = ''sequential'' then
               (case processSequentially h w files operation shift of
                  (result, w1) \<Rightarrow> (Success result, w1))
             else (Failure 400 ''Invalid processing method'' None, w))"

section \<open>An example host\<close>

text \<open>
  A host for the concrete scenarios: \<open>n\<close> cores, every path writable, a clock that
  advances by one millisecond at each reading, numbered tokens, workers and children
  that report in shard order and have no fault. Its \<^verbatim>\<open>path.join\<close> and
  \<^verbatim>\<open>path.basename\<close> are those of POSIX on the names of the scenarios, which hold no
  separator and no dot segment.
\<close>

fun last_segment :: "string \<Rightarrow> string \<Rightarrow> string" where
  "last_segment seg [] = seg"
| "last_segment seg (c # cs) =
     (if c = CHR ''/'' then last_segment [] cs else last_segment (seg @ [c]) cs)"

definition posix_host :: "nat \<Rightarrow> host" where
  "posix_host n =
     \<lparr>cpus = n, path_join = (\<lambda>a b. a @ ''/'' @ b), path_basename = last_segment [],
      writable = (\<lambda>p. True), clock = (\<lambda>k. 1000 + int k), random = (\<lambda>k. ''t'' @ digits k),
      arrival = (\<lambda>i. i), worker_error = (\<lambda>i. None), spawn_error = (\<lambda>i. None),
      parse_error = (\<lambda>i. None)\<rparr>"

definition upload :: "string \<Rightarrow> file_job" where
  "upload name = \<lparr>originalname = name, path = ''uploads/'' @ name\<rparr>"

definition disk_with :: "string list \<Rightarrow> jsstring \<Rightarrow> world" where
  \<comment> \<open>a fresh world whose disk holds the uploads of the given names, all with one content\<close>
  "disk_with names content =
     \<lparr>disk = map_of (map (\<lambda>n. (''uploads/'' @ n, content)) names),
      ticks = 0, draws = 0, written = [], spawned = []\<rparr>"

section \<open>Vocabulary for the properties\<close>

text \<open>
  A batch reads its sources and writes under \<^verbatim>\<open>processed\<close>, to the names it builds:
  \<^verbatim>\<open>sequential_names\<close> are the names the sequential executor can build for a job list,
  at any reading of the clock, and \<^verbatim>\<open>worker_names\<close> those a worker or a child can build,
  at any reading of the clock and with any token of the host.
  \<^verbatim>\<open>readable\<close>: every source of the list can be read; \<^verbatim>\<open>outputs_writable\<close>: every write
  to one of the given names succeeds; \<^verbatim>\<open>apart\<close>: no source of the list is the output
  path of one of the given names, so that no write of the batch changes what a later
  read of the batch sees. \<^verbatim>\<open>extends\<close> relates a world to a later one: the clock readings
  only grow, a readable path stays readable and only output paths of the given names
  change. \<^verbatim>\<open>workers_run\<close>: none of the first \<open>n\<close> workers emits an error;
  \<^verbatim>\<open>children_run\<close>: each of the first \<open>n\<close> children is spawned and the \<^verbatim>\<open>try\<close> block of its
  \<^verbatim>\<open>close\<close> handler does not throw.
\<close>

definition readable :: "world \<Rightarrow> file_job list \<Rightarrow> bool" where
  "readable w files = (\<forall>f \<in> set files. disk w (path f) \<noteq> None)"

definition sequential_names :: "host \<Rightarrow> file_job list \<Rightarrow> string \<Rightarrow> string set" where
  "sequential_names h files operation =
     {operation @ ''_'' @ toString (clock h k) @ ''_'' @ originalname f | k f. f \<in> set files}"

definition worker_names :: "host \<Rightarrow> file_job list \<Rightarrow> string \<Rightarrow> string set" where
  "worker_names h files operation =
     {operation @ ''_'' @ toString (clock h k) @ ''_'' @ random h d @ ''_'' @ originalname f
        | k d f. f \<in> set files}"

definition outputs_writable :: "host \<Rightarrow> string set \<Rightarrow> bool" where
  "outputs_writable h names = (\<forall>name \<in> names. writable h (path_join h ''processed'' name))"

definition apart :: "host \<Rightarrow> string set \<Rightarrow> file_job list \<Rightarrow> bool" where
  "apart h names files =
     (\<forall>f \<in> set files. \<forall>name \<in> names. path_join h ''processed'' name \<noteq> path f)"

definition extends :: "host \<Rightarrow> string set \<Rightarrow> world \<Rightarrow> world \<Rightarrow> bool" where
  "extends h names w w' =
     (ticks w \<le> ticks w'
      \<and> (\<forall>q. disk w q \<noteq> None \<longrightarrow> disk w' q \<noteq> None)
      \<and> (\<forall>q. (\<forall>name \<in> names. path_join h ''processed'' name \<noteq> q) \<longrightarrow> disk w' q = disk w q))"

definition workers_run :: "host \<Rightarrow> nat \<Rightarrow> bool" where
  "workers_run h n = (\<forall>i < n. worker_error h i = None)"





section \<open>Properties of the transform\<close>

lemma shift_char_range:
  assumes "is_letter c"
  shows "shift_char a c = (if c \<le> 90 then 65 else 97) + js_rem (c - (if c \<le> 90 then 65 else 97) + a + 26) 26"
proof -
  let ?st = "if c \<le> 90 then 65 else (97::int)"
  let ?r = "js_rem (c - ?st + a + 26) 26"
  have "- 26 < ?r \<and> ?r < 26"
    unfolding js_rem_def by (auto simp: pos_mod_bound)
  then have "0 \<le> ?r + ?st \<and> ?r + ?st < 65536" by auto
  then have "fromCharCode (?r + ?st) = ?r + ?st"
    unfolding fromCharCode_def by simp
  then show ?thesis unfolding shift_char_def Let_def by (simp add: add.commute)
qed

lemma shift_char_small:
  assumes "is_letter c" and "- 26 \<le> a" and "a \<le> 26"
  shows "shift_char a c = (if c \<le> 90 then 65 else 97) + (c - (if c \<le> 90 then 65 else 97) + a) mod 26"
proof -
  let ?st = "if c \<le> 90 then 65 else (97::int)"
  have off: "0 \<le> c - ?st \<and> c - ?st < 26"
    using assms(1) unfolding is_letter_def by auto
  then have "0 \<le> c - ?st + a + 26" using assms(2) by linarith
  then have "js_rem (c - ?st + a + 26) 26 = (c - ?st + a + 26) mod 26"
    unfolding js_rem_def by simp
  also have "\<dots> = (c - ?st + a) mod 26" by simp
  finally show ?thesis using shift_char_range [OF assms(1), of a] by simp
qed

lemma shift_char_small_letter:
  assumes "is_letter c" and "- 26 \<le> a" and "a \<le> 26"
  shows "is_letter (shift_char a c) \<and> (shift_char a c \<le> 90) = (c \<le> 90)"
proof -
  let ?st = "if c \<le> 90 then 65 else (97::int)"
  have m: "0 \<le> (c - ?st + a) mod 26 \<and> (c - ?st + a) mod 26 < 26" by simp
  show ?thesis
    using m assms(1) unfolding shift_char_small [OF assms] is_letter_def
    by (auto split: if_splits)
qed

lemma shift_char_inverse:
  assumes "is_letter c" and "- 26 \<le> s" and "s \<le> 26"
  shows "shift_char (- s) (shift_char s c) = c"
proof -
  let ?st = "if c \<le> 90 then 65 else (97::int)"
  let ?e = "(c - ?st + s) mod 26"
  have off: "0 \<le> c - ?st \<and> c - ?st < 26"
    using assms(1) unfolding is_letter_def by auto
  have l: "is_letter (shift_char s c)" and st: "(shift_char s c \<le> 90) = (c \<le> 90)"
    using shift_char_small_letter [OF assms] by auto
  have r: "shift_char s c = ?st + ?e" by (rule shift_char_small [OF assms])
  have "shift_char (- s) (shift_char s c) = ?st + (shift_char s c - ?st + (- s)) mod 26"
    using shift_char_small [OF l, of "- s"] assms(2,3) st by simp
  also have "\<dots> = ?st + (?e - s) mod 26" using r by simp
  also have "(?e - s) mod 26 = (c - ?st) mod 26"
    by (metis add_diff_cancel_right' mod_diff_left_eq)
  also have "(c - ?st) mod 26 = c - ?st" using off by simp
  finally show ?thesis by simp
qed

text \<open>
  For an integer shift \<open>s\<close> with \<open>-26 \<le> s \<le> 26\<close>, every letter is rotated by the
  effective shift modulo 26, the offset lying in \<open>[0, 26)\<close>, and encrypting and then
  decrypting with the same shift returns the string.
\<close>

lemma small_shift_roundtrip:
  assumes "- 26 \<le> s" and "s \<le> 26"
  shows "caesarCipher (caesarCipher x s False) s True = x
    \<and> (\<forall>c d. is_letter c \<longrightarrow>
          caesarCipher [c] s d
            = [(if c \<le> 90 then 65 else 97) + (c - (if c \<le> 90 then 65 else 97) + (if d then - s else s)) mod 26])"
proof
  have "map ((\<lambda>c. if is_letter c then shift_char (- s) c else c) \<circ> (\<lambda>c. if is_letter c then shift_char s c else c)) x
      = map (\<lambda>c. c) x"
  proof (rule map_cong [OF refl])
    fix c assume "c \<in> set x"
    show "((\<lambda>c. if is_letter c then shift_char (- s) c else c) \<circ> (\<lambda>c. if is_letter c then shift_char s c else c)) c = c"
      using shift_char_inverse [OF _ assms, of c] shift_char_small_letter [OF _ assms, of c]
      by (cases "is_letter c") simp_all
  qed
  then show "caesarCipher (caesarCipher x s False) s True = x"
    unfolding caesarCipher_def Let_def by simp
next
  show "\<forall>c d. is_letter c \<longrightarrow>
          caesarCipher [c] s d
            = [(if c \<le> 90 then 65 else 97) + (c - (if c \<le> 90 then 65 else 97) + (if d then - s else s)) mod 26]"
  proof (intro allI impI)
    fix c d assume l: "is_letter c"
    have "- 26 \<le> (if d then - s else s) \<and> (if d then - s else s) \<le> 26"
      using assms by simp
    then show "caesarCipher [c] s d
            = [(if c \<le> 90 then 65 else 97) + (c - (if c \<le> 90 then 65 else 97) + (if d then - s else s)) mod 26]"
      using shift_char_small [OF l, of "if d then - s else s"] l
      unfolding caesarCipher_def Let_def by simp
  qed
qed

text \<open>
  C1. The round trip does not hold for every shift, and the shift is not taken modulo 26
  when decrypting. The callback adds 26 once before the remainder, which takes the sign
  of its dividend, so a negative offset is brought back into \<open>[0, 26)\<close> only when it is
  not below \<open>-26\<close>. With shift 27 the string \<open>z\<close> encrypts to \<open>a\<close>, as with shift 1;
  decrypting \<open>a\<close> with shift 27 computes \<open>(0 - 27 + 26) % 26 = -1\<close> and returns the code
  unit 96, a backquote, where decrypting with shift 1 returns \<open>z\<close>.
\<close>

theorem caesarCipher_shift_27_not_inverted:
  "caesarCipher (js ''z'') 27 False = js ''a''
   \<and> caesarCipher (js ''z'') 27 False = caesarCipher (js ''z'') 1 False
   \<and> caesarCipher (js ''a'') 1 True = js ''z''
   \<and> caesarCipher (js ''a'') 27 True = [96]
   \<and> caesarCipher (caesarCipher (js ''z'') 27 False) 27 True = [96]
   \<and> caesarCipher (caesarCipher (js ''z'') 27 False) 27 True \<noteq> js ''z''"
  by (simp add: caesarCipher_def js_def is_letter_def shift_char_def js_rem_def fromCharCode_def)

section \<open>Properties of the shards\<close>

lemma ceil_div_covers:
  assumes "1 \<le> k"
  shows "n \<le> k * ceil_div n k"
proof -
  have "(n + k - 1) mod k < k" using assms by simp
  moreover have "k * ((n + k - 1) div k) + (n + k - 1) mod k = n + k - 1" by simp
  ultimately show ?thesis unfolding ceil_div_def using assms by linarith
qed

lemma concat_shards:
  "concat (shards xs n s i) = take ((n - i) * s) (drop (i * s) xs)"
proof (induction xs n s i rule: shards.induct)
  case (1 files numWorkers filesPerWorker i)
  show ?case
  proof (cases "i < numWorkers")
    case False
    then show ?thesis by (subst shards.simps) simp
  next
    case True
    show ?thesis
    proof (cases "slice files (i * filesPerWorker) ((i + 1) * filesPerWorker) = []")
      case True
      with \<open>i < numWorkers\<close> show ?thesis
        by (subst shards.simps) (auto simp: slice_def)
    next
      case False
      have split: "(numWorkers - i) * filesPerWorker
                     = filesPerWorker + (numWorkers - (i + 1)) * filesPerWorker"
        using \<open>i < numWorkers\<close> by (metis Suc_diff_Suc Suc_eq_plus1 mult_Suc)
      have "concat (shards files numWorkers filesPerWorker i)
              = take filesPerWorker (drop (i * filesPerWorker) files)
                  @ concat (shards files numWorkers filesPerWorker (i + 1))"
        using False \<open>i < numWorkers\<close> by (subst shards.simps) (simp add: slice_def)
      also have "\<dots> = take filesPerWorker (drop (i * filesPerWorker) files)
                  @ take ((numWorkers - (i + 1)) * filesPerWorker)
                      (drop filesPerWorker (drop (i * filesPerWorker) files))"
        using "1.IH" [OF \<open>i < numWorkers\<close> False] by (simp add: add.commute)
      also have "\<dots> = take ((numWorkers - i) * filesPerWorker) (drop (i * filesPerWorker) files)"
        unfolding split by (simp add: take_add)
      finally show ?thesis .
    qed
  qed
qed

lemma shards_nonempty: "[] \<notin> set (shards xs n s i)"
proof (induction xs n s i rule: shards.induct)
  case (1 files numWorkers filesPerWorker i)
  then show ?case by (subst shards.simps) auto
qed

lemma length_shards: "length (shards xs n s i) \<le> n - i"
proof (induction xs n s i rule: shards.induct)
  case (1 files numWorkers filesPerWorker i)
  then show ?case by (subst shards.simps) auto
qed

lemma shard_sizes: "ys \<in> set (shards xs n s i) \<Longrightarrow> length ys \<le> s"
proof (induction xs n s i rule: shards.induct)
  case (1 files numWorkers filesPerWorker i)
  from "1.prems" show ?case
    by (subst (asm) shards.simps) (auto simp: slice_def split: if_splits dest: "1.IH")
qed

lemma concat_partition_files:
  assumes "1 \<le> k"
  shows "concat (partition_files xs k) = xs"
  using ceil_div_covers [OF assms, of "length xs"]
  unfolding partition_files_def Let_def by (simp add: concat_shards)


text \<open>
  C6. For every job list and every worker count \<open>K \<ge> 1\<close>, cutting the list into
  contiguous slices of size \<open>ceil(L / K)\<close> and stopping at the first empty slice gives
  shards whose concatenation, in order, is the job list; their lengths add up to its
  length, no shard is empty, there are at most \<open>K\<close> of them and none is longer than
  the slice size. So no job is in two shards and no job is left out.
\<close>

theorem partition_complete:
  assumes "1 \<le> K"
  shows "concat (partition_files jobs K) = jobs
    \<and> sum_list (map length (partition_files jobs K)) = length jobs
    \<and> [] \<notin> set (partition_files jobs K)
    \<and> length (partition_files jobs K) \<le> K
    \<and> list_all (\<lambda>shard. length shard \<le> ceil_div (length jobs) K) (partition_files jobs K)"
proof -
  have c: "concat (partition_files jobs K) = jobs"
    by (rule concat_partition_files [OF assms])
  have "sum_list (map length (partition_files jobs K)) = length (concat (partition_files jobs K))"
    by (simp add: length_concat)
  then have s: "sum_list (map length (partition_files jobs K)) = length jobs"
    using c by simp
  have n: "[] \<notin> set (partition_files jobs K)"
    unfolding partition_files_def Let_def by (rule shards_nonempty)
  have l: "length (partition_files jobs K) \<le> K"
    using length_shards [of jobs K "ceil_div (length jobs) K" 0]
    unfolding partition_files_def Let_def by simp
  have z: "list_all (\<lambda>shard. length shard \<le> ceil_div (length jobs) K) (partition_files jobs K)"
    unfolding partition_files_def Let_def list_all_iff using shard_sizes by blast
  from c s n l z show ?thesis by blast
qed

theorem partition_complete_witness:
  "(1::nat) \<le> 4 \<and> concat (partition_files [1, 2, 3, 4, 5 :: nat] 4) = [1, 2, 3, 4, 5]
    \<and> partition_files [1, 2, 3, 4, 5 :: nat] 4 = [[1, 2], [3, 4], [5]]"
proof -
  have h: "(1::nat) \<le> 4" by simp
  have e: "partition_files [1, 2, 3, 4, 5 :: nat] 4 = [[1, 2], [3, 4], [5]]"
    by (simp add: partition_files_def ceil_div_def shards.simps slice_def)
  from h e partition_complete [OF h, of "[1, 2, 3, 4, 5 :: nat]"] show ?thesis by simp
qed

section \<open>Properties of the executors\<close>

lemma extends_refl: "extends h N w w"
  unfolding extends_def by simp

lemma extends_trans: "extends h N w w1 \<Longrightarrow> extends h N w1 w2 \<Longrightarrow> extends h N w w2"
  unfolding extends_def by auto

lemma extends_readable: "extends h N w w' \<Longrightarrow> readable w files \<Longrightarrow> readable w' files"
  unfolding extends_def readable_def by auto


lemma extends_ticks: "extends h N w w' \<Longrightarrow> ticks w \<le> ticks w'"
  unfolding extends_def by simp

lemma readable_Cons: "readable w (f # files) = (disk w (path f) \<noteq> None \<and> readable w files)"
  unfolding readable_def by simp


lemma apart_Cons:
  "apart h N (f # files)
     = ((\<forall>name \<in> N. path_join h ''processed'' name \<noteq> path f) \<and> apart h N files)"
  unfolding apart_def by simp




subsection \<open>The names a batch builds\<close>

lemma sequential_names_mem:
  "f \<in> set files \<Longrightarrow>
     operation @ ''_'' @ toString (clock h k) @ ''_'' @ originalname f
       \<in> sequential_names h files operation"
  unfolding sequential_names_def by blast

lemma sequential_names_Cons:
  "sequential_names h (f # files) operation
     = sequential_names h [f] operation \<union> sequential_names h files operation"
  unfolding sequential_names_def by auto

lemma sequential_names_append:
  "sequential_names h (xs @ ys) operation
     = sequential_names h xs operation \<union> sequential_names h ys operation"
  unfolding sequential_names_def by auto

lemma worker_names_mem:
  "f \<in> set files \<Longrightarrow>
     operation @ ''_'' @ toString (clock h k) @ ''_'' @ random h d @ ''_'' @ originalname f
       \<in> worker_names h files operation"
  unfolding worker_names_def by blast

lemma worker_names_Cons:
  "worker_names h (f # files) operation
     = worker_names h [f] operation \<union> worker_names h files operation"
  unfolding worker_names_def by auto

lemma worker_names_append:
  "worker_names h (xs @ ys) operation
     = worker_names h xs operation \<union> worker_names h ys operation"
  unfolding worker_names_def by auto

lemma worker_names_take:
  "worker_names h (take k files) operation \<subseteq> worker_names h files operation"
  unfolding worker_names_def using set_take_subset [of k files] by blast

subsection \<open>One file, sequentially\<close>




lemma sequential_step_ok:
  assumes "disk w (path f) = Some c" and "outputs_writable h N"
    and "sequential_names h [f] operation \<subseteq> N"
  shows "\<exists>r w' name. sequential_step h w f operation shift = (Inr r, w')
           \<and> name \<in> N
           \<and> originalName r = originalname f \<and> size_r r = length c
           \<and> processedPath r = path_join h ''processed'' name
           \<and> disk w' = (disk w)(path_join h ''processed'' name
                           \<mapsto> caesarCipher c shift (operation = ''decrypt''))
           \<and> written w' = written w
                 @ [(path_join h ''processed'' name, caesarCipher c shift (operation = ''decrypt''))]"
proof -
  let ?name = "operation @ ''_'' @ toString (clock h (ticks w)) @ ''_'' @ originalname f"
  have m: "?name \<in> N"
    using assms(3) sequential_names_mem [of f "[f]" operation h "ticks w"] by auto
  then have "writable h (path_join h ''processed'' ?name)"
    using assms(2) unfolding outputs_writable_def by blast
  then have "sequential_step h w f operation shift
      = (Inr \<lparr>originalName = originalname f, processedPath = path_join h ''processed'' ?name,
              size_r = length c, operation_r = None\<rparr>,
         w\<lparr>ticks := Suc (ticks w),
           disk := (disk w)(path_join h ''processed'' ?name
                      \<mapsto> caesarCipher c shift (operation = ''decrypt'')),
           written := written w
             @ [(path_join h ''processed'' ?name, caesarCipher c shift (operation = ''decrypt''))]\<rparr>)"
    using assms(1)
    unfolding sequential_step_def readFile_def writeFile_def Date_now_def Let_def
    by simp
  then show ?thesis using m by auto
qed

lemma sequential_step_written:
  "sequential_step h w f operation shift = (Inr r, w') \<Longrightarrow>
     \<exists>c. written w' = written w @ [(processedPath r, c)] \<and> size_r r = length c"
  unfolding sequential_step_def readFile_def writeFile_def Date_now_def Let_def caesarCipher_def
  by (auto split: option.splits if_splits)

lemma sequential_step_not_written:
  "sequential_step h w f operation shift = (Inl e, w') \<Longrightarrow> written w' = written w"
  unfolding sequential_step_def readFile_def writeFile_def Date_now_def Let_def
  by (auto split: option.splits if_splits)

subsection \<open>The sequential loop\<close>







lemma sequential_loop_written:
  "sequential_loop h w files operation shift = (rs, w') \<Longrightarrow>
     \<exists>new. written w' = written w @ new
        \<and> map (\<lambda>r. (processedPath r, size_r r)) rs = map (\<lambda>(p, c). (p, length c)) new"
proof (induction files arbitrary: w rs w')
  case Nil
  then show ?case by simp
next
  case (Cons f files)
  obtain x w1 where st: "sequential_step h w f operation shift = (x, w1)"
    by (cases "sequential_step h w f operation shift")
  obtain rs1 w2 where lp: "sequential_loop h w1 files operation shift = (rs1, w2)"
    by (cases "sequential_loop h w1 files operation shift")
  obtain new where new: "written w2 = written w1 @ new"
      "map (\<lambda>r. (processedPath r, size_r r)) rs1 = map (\<lambda>(p, c). (p, length c)) new"
    using Cons.IH [OF lp] by blast
  show ?case
  proof (cases x)
    case (Inl e)
    then have "rs = rs1" "w' = w2" using Cons.prems st lp by simp_all
    moreover have "written w1 = written w"
      using sequential_step_not_written st Inl by blast
    ultimately show ?thesis using new by simp
  next
    case (Inr r)
    then have eq: "rs = r # rs1" "w' = w2" using Cons.prems st lp by simp_all
    obtain c where c: "written w1 = written w @ [(processedPath r, c)]" "size_r r = length c"
      using sequential_step_written st Inr by blast
    have "written w' = written w @ ((processedPath r, c) # new)"
      using eq new c by simp
    moreover have "map (\<lambda>r. (processedPath r, size_r r)) rs
        = map (\<lambda>(p, c). (p, length c)) ((processedPath r, c) # new)"
      using eq new c by simp
    ultimately show ?thesis by blast
  qed
qed

lemma sequential_loop_same_content:
  assumes "outputs_writable h N"
  shows "\<forall>f \<in> set files. disk w (path f) = Some c \<Longrightarrow> apart h N files \<Longrightarrow>
     sequential_names h files operation \<subseteq> N \<Longrightarrow>
     sequential_loop h w files operation shift = (rs, w') \<Longrightarrow>
     map originalName rs = map originalname files
     \<and> (\<exists>new. written w' = written w @ new \<and> map fst new = map processedPath rs
           \<and> map snd new
               = replicate (length files) (caesarCipher c shift (operation = ''decrypt'')))
     \<and> (\<forall>q. disk w' q = disk w q
             \<or> disk w' q = Some (caesarCipher c shift (operation = ''decrypt'')))
     \<and> (\<forall>r \<in> set rs.
           disk w' (processedPath r) = Some (caesarCipher c shift (operation = ''decrypt'')))"
proof (induction files arbitrary: w rs w')
  case Nil
  then show ?case by simp
next
  case (Cons f files)
  let ?k = "caesarCipher c shift (operation = ''decrypt'')"
  have ap: "apart h N files" using Cons.prems(2) by (simp add: apart_Cons)
  have nf: "sequential_names h [f] operation \<subseteq> N"
    and ns: "sequential_names h files operation \<subseteq> N"
    using Cons.prems(3) sequential_names_Cons [of h f files operation] by auto
  have c: "disk w (path f) = Some c" using Cons.prems(1) by simp
  obtain r w1 name where st: "sequential_step h w f operation shift = (Inr r, w1)"
    and nm: "name \<in> N"
    and r: "originalName r = originalname f"
    and p: "processedPath r = path_join h ''processed'' name"
    and d: "disk w1 = (disk w)(path_join h ''processed'' name \<mapsto> ?k)"
    and wr: "written w1 = written w @ [(path_join h ''processed'' name, ?k)]"
    using sequential_step_ok [OF c assms nf, of shift] by blast
  obtain rs1 w2 where lp: "sequential_loop h w1 files operation shift = (rs1, w2)"
    by (cases "sequential_loop h w1 files operation shift")
  have eq: "rs = r # rs1" "w' = w2" using Cons.prems(4) st lp by simp_all
  have src: "\<forall>g \<in> set files. disk w1 (path g) = Some c"
  proof
    fix g assume g: "g \<in> set files"
    then have "path_join h ''processed'' name \<noteq> path g"
      using ap nm unfolding apart_def by blast
    then show "disk w1 (path g) = Some c"
      using Cons.prems(1) g unfolding d by simp
  qed
  note ih = Cons.IH [OF src ap ns lp]
  from ih obtain new where new: "written w2 = written w1 @ new"
    "map fst new = map processedPath rs1" "map snd new = replicate (length files) ?k"
    by blast
  have 1: "map originalName rs = map originalname (f # files)"
    using ih eq r by simp
  have "written w' = written w @ ((path_join h ''processed'' name, ?k) # new)"
    using new wr eq by simp
  moreover have "map fst ((path_join h ''processed'' name, ?k) # new) = map processedPath rs"
    using new eq p by simp
  moreover have "map snd ((path_join h ''processed'' name, ?k) # new)
      = replicate (length (f # files)) ?k"
    using new by simp
  ultimately have 2: "\<exists>new. written w' = written w @ new \<and> map fst new = map processedPath rs
      \<and> map snd new = replicate (length (f # files)) ?k"
    by blast
  have q2: "\<And>q. disk w2 q = disk w1 q \<or> disk w2 q = Some ?k" using ih by blast
  have 3: "\<forall>q. disk w' q = disk w q \<or> disk w' q = Some ?k"
  proof
    fix q
    show "disk w' q = disk w q \<or> disk w' q = Some ?k"
      using q2 [of q] unfolding eq d by (cases "q = path_join h ''processed'' name") auto
  qed
  have "disk w2 (processedPath r) = Some ?k"
    using q2 [of "processedPath r"] unfolding p d by auto
  then have 4: "\<forall>r \<in> set rs. disk w' (processedPath r) = Some ?k"
    using ih eq by simp
  from 1 2 3 4 show ?case by blast
qed

subsection \<open>One file, in a worker or a child\<close>

lemma worker_step_extends:
  assumes "worker_names h [f] operation \<subseteq> N"
    and "worker_step h w f operation shift = (x, w')"
  shows "extends h N w w'"
proof -
  have "operation @ ''_'' @ toString (clock h (ticks w)) @ ''_'' @ random h (draws w)
          @ ''_'' @ originalname f \<in> N"
    using assms(1) worker_names_mem [of f "[f]" operation h "ticks w" "draws w"] by auto
  then show ?thesis
    using assms(2)
    unfolding worker_step_def readFile_def writeFile_def Date_now_def random_token_def
      extends_def Let_def
    by (auto split: option.splits if_splits)
qed

lemma worker_step_spawned:
  "worker_step h w f operation shift = (x, w') \<Longrightarrow> spawned w' = spawned w"
  unfolding worker_step_def readFile_def writeFile_def Date_now_def random_token_def Let_def
  by (auto split: option.splits if_splits)

lemma worker_step_name:
  "worker_step h w f operation shift = (Inr r, w') \<Longrightarrow> originalName r = originalname f"
  unfolding worker_step_def readFile_def writeFile_def Date_now_def random_token_def Let_def
  by (auto split: option.splits if_splits)

lemma worker_step_ok:
  assumes "disk w (path f) = Some c" and "outputs_writable h N"
    and "worker_names h [f] operation \<subseteq> N"
  shows "\<exists>r w'. worker_step h w f operation shift = (Inr r, w')
           \<and> originalName r = originalname f \<and> size_r r = length c"
proof -
  let ?name = "operation @ ''_'' @ toString (clock h (ticks w)) @ ''_'' @ random h (draws w)
          @ ''_'' @ originalname f"
  have "?name \<in> N"
    using assms(3) worker_names_mem [of f "[f]" operation h "ticks w" "draws w"] by auto
  then have "writable h (path_join h ''processed'' ?name)"
    using assms(2) unfolding outputs_writable_def by blast
  then show ?thesis
    using assms(1)
    unfolding worker_step_def readFile_def writeFile_def Date_now_def random_token_def Let_def
    by simp
qed

subsection \<open>The loop over a shard\<close>

lemma worker_loop_Cons:
  assumes "worker_step h w f operation shift = (x, w1)"
    and "worker_loop h w1 files operation shift = (y, w2)"
  shows "worker_loop h w (f # files) operation shift =
     (case x of Inl e \<Rightarrow> (Inl e, w1)
      | Inr r \<Rightarrow> (case y of Inl e \<Rightarrow> (Inl e, w2) | Inr rs \<Rightarrow> (Inr (r # rs), w2)))"
  using assms by (simp split: sum.splits)

lemma worker_loop_extends:
  "worker_names h files operation \<subseteq> N \<Longrightarrow>
     worker_loop h w files operation shift = (y, w') \<Longrightarrow> extends h N w w'"
proof (induction files arbitrary: w y w')
  case Nil
  then show ?case by (simp add: extends_refl)
next
  case (Cons f files)
  have nf: "worker_names h [f] operation \<subseteq> N"
    and ns: "worker_names h files operation \<subseteq> N"
    using Cons.prems(1) worker_names_Cons [of h f files operation] by auto
  obtain x w1 where st: "worker_step h w f operation shift = (x, w1)"
    by (cases "worker_step h w f operation shift")
  obtain y1 w2 where lp: "worker_loop h w1 files operation shift = (y1, w2)"
    by (cases "worker_loop h w1 files operation shift")
  have "w' = w1 \<or> w' = w2"
    using Cons.prems(2) unfolding worker_loop_Cons [OF st lp] by (auto split: sum.splits)
  then show ?case
    using worker_step_extends [OF nf st] Cons.IH [OF ns lp] extends_trans
    by blast
qed

lemma worker_loop_spawned:
  "worker_loop h w files operation shift = (y, w') \<Longrightarrow> spawned w' = spawned w"
proof (induction files arbitrary: w y w')
  case Nil
  then show ?case by simp
next
  case (Cons f files)
  obtain x w1 where st: "worker_step h w f operation shift = (x, w1)"
    by (cases "worker_step h w f operation shift")
  obtain y1 w2 where lp: "worker_loop h w1 files operation shift = (y1, w2)"
    by (cases "worker_loop h w1 files operation shift")
  have "w' = w1 \<or> w' = w2"
    using Cons.prems unfolding worker_loop_Cons [OF st lp] by (auto split: sum.splits)
  then show ?case
    using worker_step_spawned [OF st] Cons.IH [OF lp] by auto
qed

lemma worker_loop_names:
  "worker_loop h w files operation shift = (Inr rs, w') \<Longrightarrow>
     map originalName rs = map originalname files"
proof (induction files arbitrary: w rs w')
  case Nil
  then show ?case by simp
next
  case (Cons f files)
  obtain x w1 where st: "worker_step h w f operation shift = (x, w1)"
    by (cases "worker_step h w f operation shift")
  obtain y1 w2 where lp: "worker_loop h w1 files operation shift = (y1, w2)"
    by (cases "worker_loop h w1 files operation shift")
  from Cons.prems obtain r rs1 where x: "x = Inr r" and y: "y1 = Inr rs1" and rs: "rs = r # rs1"
    unfolding worker_loop_Cons [OF st lp] by (auto split: sum.splits)
  have "originalName r = originalname f"
    using worker_step_name st x by blast
  moreover have "map originalName rs1 = map originalname files"
    using Cons.IH lp y by blast
  ultimately show ?case using rs by simp
qed


lemma worker_loop_all:
  assumes "outputs_writable h N"
  shows "readable w files \<Longrightarrow> worker_names h files operation \<subseteq> N \<Longrightarrow>
     \<exists>rs w'. worker_loop h w files operation shift = (Inr rs, w')"
proof (induction files arbitrary: w)
  case Nil
  then show ?case by simp
next
  case (Cons f files)
  have nf: "worker_names h [f] operation \<subseteq> N"
    and ns: "worker_names h files operation \<subseteq> N"
    using Cons.prems(2) worker_names_Cons [of h f files operation] by auto
  obtain c where c: "disk w (path f) = Some c"
    using Cons.prems(1) by (auto simp: readable_Cons)
  obtain r w1 where st: "worker_step h w f operation shift = (Inr r, w1)"
    using worker_step_ok [OF c assms nf, of shift] by blast
  have "readable w1 files"
    using extends_readable [OF worker_step_extends [OF nf st]] Cons.prems(1)
    by (simp add: readable_Cons)
  then obtain rs1 w2 where lp: "worker_loop h w1 files operation shift = (Inr rs1, w2)"
    using Cons.IH [OF _ ns] by blast
  have "worker_loop h w (f # files) operation shift = (Inr (r # rs1), w2)"
    unfolding worker_loop_Cons [OF st lp] by simp
  then show ?case by blast
qed

subsection \<open>What a worker posts and what a child prints\<close>

lemma processFiles_worker_extends:
  "worker_names h files operation \<subseteq> N \<Longrightarrow>
     processFiles_worker h w files operation shift = (msg, w') \<Longrightarrow> extends h N w w'"
  unfolding processFiles_worker_def
  by (auto split: prod.splits sum.splits dest: worker_loop_extends)

lemma processFiles_worker_spawned:
  "processFiles_worker h w files operation shift = (msg, w') \<Longrightarrow> spawned w' = spawned w"
  unfolding processFiles_worker_def
  by (auto split: prod.splits sum.splits dest: worker_loop_spawned)


lemma processFiles_worker_all:
  assumes "outputs_writable h N" and "readable w files"
    and "worker_names h files operation \<subseteq> N"
    and "processFiles_worker h w files operation shift = (msg, w')"
  shows "map originalName msg = map originalname files"
proof -
  obtain rs w1 where "worker_loop h w files operation shift = (Inr rs, w1)"
    using worker_loop_all [OF assms(1,2,3)] by blast
  then show ?thesis
    using assms(4) worker_loop_names unfolding processFiles_worker_def by fastforce
qed


lemma processFiles_child_extends:
  "worker_names h files operation \<subseteq> N \<Longrightarrow>
     processFiles_child h w files operation shift = (c, w') \<Longrightarrow> extends h N w w'"
  unfolding processFiles_child_def
  by (auto split: prod.splits sum.splits dest: worker_loop_extends)

lemma processFiles_child_spawned:
  "processFiles_child h w files operation shift = (c, w') \<Longrightarrow> spawned w' = spawned w"
  unfolding processFiles_child_def
  by (auto split: prod.splits sum.splits dest: worker_loop_spawned)




subsection \<open>Promises\<close>

lemma extends_spawn: "extends h N w (w\<lparr>spawned := s\<rparr>)"
  unfolding extends_def by simp

lemma mset_by_arrival: "mset (by_arrival h xs) = mset xs"
proof -
  have "mset (by_arrival h xs) = image_mset snd (mset (enumerate 0 xs))"
    unfolding by_arrival_def by simp
  also have "\<dots> = mset (map snd (enumerate 0 xs))" by (rule mset_map [symmetric])
  also have "\<dots> = mset xs" by simp
  finally show ?thesis .
qed

lemma set_by_arrival: "set (by_arrival h xs) = set xs"
  using mset_by_arrival [of h xs] by (metis set_mset_mset)

lemma mset_concat_cong:
  assumes "mset xss = mset yss"
  shows "mset (concat xss) = mset (concat yss)"
proof -
  have "mset (concat zss) = sum_mset (image_mset mset (mset zss))" for zss :: "'a list list"
  proof -
    have "mset (concat zss) = sum_list (map mset zss)" by (rule mset_concat)
    also have "\<dots> = sum_mset (mset (map mset zss))" by (rule sum_mset_sum_list [symmetric])
    finally show ?thesis by simp
  qed
  then show ?thesis using assms by simp
qed

lemma mset_map_Inr:
  assumes "mset (map (Inr :: 'b \<Rightarrow> 'a + 'b) xss) = mset (map Inr yss)"
  shows "mset xss = mset yss"
proof -
  have "image_mset projr (mset (map (Inr :: 'b \<Rightarrow> 'a + 'b) xss))
      = image_mset projr (mset (map (Inr :: 'b \<Rightarrow> 'a + 'b) yss))"
    using assms by simp
  then show ?thesis by (simp add: image_mset.compositionality comp_def)
qed

lemma Promise_all_map_Inr: "Promise_all (map Inr xss) = Inr (concat xss)"
  by (induction xss) simp_all

lemma all_resolved: "\<forall>p \<in> set ps. \<exists>xs. p = Inr xs \<Longrightarrow> \<exists>xss. ps = map Inr xss"
proof (induction ps)
  case Nil
  then show ?case by simp
next
  case (Cons p ps)
  then obtain xs xss where "p = Inr xs" "ps = map Inr xss" by auto
  then have "p # ps = map Inr (xs # xss)" by simp
  then show ?case by (rule exI)
qed

lemma Promise_all_Inr:
  "Promise_all ps = Inr rs \<Longrightarrow> \<exists>xss. ps = map Inr xss \<and> rs = concat xss"
proof (induction ps arbitrary: rs)
  case Nil
  then show ?case by simp
next
  case (Cons p ps)
  show ?case
  proof (cases p)
    case (Inl e)
    then show ?thesis using Cons.prems by simp
  next
    case (Inr xs)
    then obtain rs1 where r1: "Promise_all ps = Inr rs1" and rs: "rs = xs @ rs1"
      using Cons.prems by (auto split: sum.splits)
    obtain xss where "ps = map Inr xss" "rs1 = concat xss"
      using Cons.IH [OF r1] by blast
    then have "p # ps = map Inr (xs # xss) \<and> rs = concat (xs # xss)"
      using Inr rs by simp
    then show ?thesis by (rule exI)
  qed
qed


lemma settled_ok:
  assumes "ps = map Inr xss"
  shows "\<exists>rs. Promise_all (by_arrival h ps) = Inr rs \<and> mset rs = mset (concat xss)"
proof -
  have "\<forall>p \<in> set (by_arrival h ps). \<exists>xs. p = Inr xs"
    unfolding set_by_arrival assms by auto
  then obtain yss where y: "by_arrival h ps = map Inr yss"
    using all_resolved by blast
  have "mset (map Inr yss) = mset ps"
    unfolding y [symmetric] by (rule mset_by_arrival)
  then have "mset yss = mset xss"
    unfolding assms by (rule mset_map_Inr)
  then have "mset (concat yss) = mset (concat xss)" by (rule mset_concat_cong)
  then show ?thesis unfolding y Promise_all_map_Inr by simp
qed

lemma settled_Inr:
  assumes "Promise_all (by_arrival h ps) = Inr rs"
  shows "\<exists>xss. ps = map Inr xss \<and> mset rs = mset (concat xss)"
proof -
  obtain yss where y: "by_arrival h ps = map Inr yss"
    using Promise_all_Inr [OF assms] by blast
  have "set ps = set (map Inr yss)"
    using set_by_arrival [of h ps] y by simp
  then have "\<forall>p \<in> set ps. \<exists>xs. p = Inr xs" by auto
  then obtain xss where x: "ps = map Inr xss"
    using all_resolved by blast
  obtain rs' where "Promise_all (by_arrival h ps) = Inr rs'" "mset rs' = mset (concat xss)"
    using settled_ok [OF x] by blast
  then show ?thesis using assms x by auto
qed


subsection \<open>One worker\<close>

lemma run_worker_world:
  assumes "worker_names h sh operation \<subseteq> N"
    and "run_worker h w i sh operation shift = (p, w')"
  shows "extends h N w w' \<and> spawned w' = spawned w"
proof (cases "worker_error h i")
  case None
  then obtain msg where "processFiles_worker h w sh operation shift = (msg, w')"
    using assms(2) unfolding run_worker_def by (auto split: prod.splits)
  then show ?thesis
    using processFiles_worker_extends [OF assms(1)] processFiles_worker_spawned by blast
next
  case (Some ke)
  obtain k e where ke: "ke = (k, e)" by (cases ke)
  obtain y w1 where lp: "worker_loop h w (take k sh) operation shift = (y, w1)"
    by (cases "worker_loop h w (take k sh) operation shift")
  have "w' = w1"
    using assms(2) Some ke lp unfolding run_worker_def by (auto split: sum.splits)
  moreover have "worker_names h (take k sh) operation \<subseteq> N"
    by (rule subset_trans [OF worker_names_take assms(1)])
  ultimately show ?thesis
    using worker_loop_extends [OF _ lp] worker_loop_spawned [OF lp] by blast
qed



lemma run_worker_all:
  assumes "worker_error h i = None" and "outputs_writable h N" and "readable w sh"
    and "worker_names h sh operation \<subseteq> N"
    and "run_worker h w i sh operation shift = (p, w')"
  shows "\<exists>msg. p = Inr msg \<and> map originalName msg = map originalname sh"
proof -
  obtain msg w1 where pw: "processFiles_worker h w sh operation shift = (msg, w1)"
    by (cases "processFiles_worker h w sh operation shift")
  have "p = Inr msg" using assms(1,5) pw unfolding run_worker_def by simp
  moreover have "map originalName msg = map originalname sh"
    by (rule processFiles_worker_all [OF assms(2,3,4) pw])
  ultimately show ?thesis by blast
qed

subsection \<open>Running the shards in workers\<close>

lemma run_workers_Cons:
  assumes "run_worker h (w\<lparr>spawned := spawned w @ [sh]\<rparr>) i sh operation shift = (p, w1)"
    and "run_workers h w1 (i + 1) shs operation shift = (ps, w2)"
  shows "run_workers h w i (sh # shs) operation shift = (p # ps, w2)"
  using assms by simp

lemma run_workers_world:
  "worker_names h (concat shs) operation \<subseteq> N \<Longrightarrow>
     run_workers h w i shs operation shift = (ps, w') \<Longrightarrow>
     extends h N w w' \<and> spawned w' = spawned w @ shs"
proof (induction shs arbitrary: w i ps w')
  case Nil
  then show ?case by (simp add: extends_refl)
next
  case (Cons sh shs)
  let ?w0 = "w\<lparr>spawned := spawned w @ [sh]\<rparr>"
  have nf: "worker_names h sh operation \<subseteq> N"
    and ns: "worker_names h (concat shs) operation \<subseteq> N"
    using Cons.prems(1) worker_names_append [of h sh "concat shs" operation] by auto
  obtain p w1 where pw: "run_worker h ?w0 i sh operation shift = (p, w1)"
    by (cases "run_worker h ?w0 i sh operation shift")
  obtain ps1 w2 where rw: "run_workers h w1 (i + 1) shs operation shift = (ps1, w2)"
    by (cases "run_workers h w1 (i + 1) shs operation shift")
  have w': "w' = w2" using Cons.prems(2) unfolding run_workers_Cons [OF pw rw] by simp
  have one: "extends h N ?w0 w1" "spawned w1 = spawned ?w0"
    using run_worker_world [OF nf pw] by simp_all
  have "extends h N w w1"
    by (rule extends_trans [OF extends_spawn one(1)])
  then have "extends h N w w2" using Cons.IH [OF ns rw] extends_trans by blast
  moreover have "spawned w2 = spawned w @ sh # shs"
    using Cons.IH [OF ns rw] one(2) by simp
  ultimately show ?case using w' by simp
qed


lemma run_workers_all:
  assumes "outputs_writable h N"
  shows "readable w (concat shs) \<Longrightarrow> worker_names h (concat shs) operation \<subseteq> N \<Longrightarrow>
     \<forall>j < i + length shs. worker_error h j = None \<Longrightarrow>
     run_workers h w i shs operation shift = (ps, w') \<Longrightarrow>
     \<exists>msgs. ps = map Inr msgs
        \<and> map originalName (concat msgs) = map originalname (concat shs)"
proof (induction shs arbitrary: w i ps w')
  case Nil
  then show ?case by simp
next
  case (Cons sh shs)
  let ?w0 = "w\<lparr>spawned := spawned w @ [sh]\<rparr>"
  have nf: "worker_names h sh operation \<subseteq> N"
    and ns: "worker_names h (concat shs) operation \<subseteq> N"
    using Cons.prems(2) worker_names_append [of h sh "concat shs" operation] by auto
  obtain p w1 where pw: "run_worker h ?w0 i sh operation shift = (p, w1)"
    by (cases "run_worker h ?w0 i sh operation shift")
  obtain ps1 w2 where rw: "run_workers h w1 (i + 1) shs operation shift = (ps1, w2)"
    by (cases "run_workers h w1 (i + 1) shs operation shift")
  have ps: "ps = p # ps1"
    using Cons.prems(4) unfolding run_workers_Cons [OF pw rw] by simp
  have r0: "readable ?w0 sh" and r1: "readable ?w0 (concat shs)"
    using Cons.prems(1) by (simp_all add: readable_def)
  have e0: "worker_error h i = None"
    and e1: "\<forall>j < (i + 1) + length shs. worker_error h j = None"
    using Cons.prems(3) by simp_all
  have one: "extends h N ?w0 w1" using run_worker_world [OF nf pw] by simp
  obtain msg where p: "p = Inr msg" and m: "map originalName msg = map originalname sh"
    using run_worker_all [OF e0 assms r0 nf pw] by blast
  have r1': "readable w1 (concat shs)" by (rule extends_readable [OF one r1])
  obtain msgs1 where ps1: "ps1 = map Inr msgs1"
    and m1: "map originalName (concat msgs1) = map originalname (concat shs)"
    using Cons.IH [OF r1' ns e1 rw] by blast
  have "ps = map Inr (msg # msgs1)
      \<and> map originalName (concat (msg # msgs1)) = map originalname (concat (sh # shs))"
    using ps p ps1 m m1 by simp
  then show ?case by blast
qed


subsection \<open>One child\<close>

lemma run_child_world:
  assumes "worker_names h sh operation \<subseteq> N"
    and "run_child h w i sh operation shift = (ev, w')"
  shows "extends h N w w' \<and> spawned w' = spawned w"
proof (cases "spawn_error h i")
  case (Some e)
  then have "w' = w" using assms(2) unfolding run_child_def by simp
  then show ?thesis by (simp add: extends_refl)
next
  case None
  then obtain c where "processFiles_child h w sh operation shift = (c, w')"
    using assms(2) unfolding run_child_def by (auto split: prod.splits)
  then show ?thesis
    using processFiles_child_extends [OF assms(1)] processFiles_child_spawned by blast
qed






subsection \<open>Running the shards in children\<close>

lemma run_children_Cons:
  assumes "run_child h (w\<lparr>spawned := spawned w @ [sh]\<rparr>) i sh operation shift = (ev, w1)"
    and "run_children h w1 (i + 1) shs operation shift = (evs, w2)"
  shows "run_children h w i (sh # shs) operation shift = (ev # evs, w2)"
  using assms by simp

lemma run_children_world:
  "worker_names h (concat shs) operation \<subseteq> N \<Longrightarrow>
     run_children h w i shs operation shift = (evs, w') \<Longrightarrow>
     extends h N w w' \<and> spawned w' = spawned w @ shs"
proof (induction shs arbitrary: w i evs w')
  case Nil
  then show ?case by (simp add: extends_refl)
next
  case (Cons sh shs)
  let ?w0 = "w\<lparr>spawned := spawned w @ [sh]\<rparr>"
  have nf: "worker_names h sh operation \<subseteq> N"
    and ns: "worker_names h (concat shs) operation \<subseteq> N"
    using Cons.prems(1) worker_names_append [of h sh "concat shs" operation] by auto
  obtain ev w1 where pc: "run_child h ?w0 i sh operation shift = (ev, w1)"
    by (cases "run_child h ?w0 i sh operation shift")
  obtain evs1 w2 where rc: "run_children h w1 (i + 1) shs operation shift = (evs1, w2)"
    by (cases "run_children h w1 (i + 1) shs operation shift")
  have w': "w' = w2" using Cons.prems(2) unfolding run_children_Cons [OF pc rc] by simp
  have one: "extends h N ?w0 w1" "spawned w1 = spawned ?w0"
    using run_child_world [OF nf pc] by simp_all
  have "extends h N w w1"
    by (rule extends_trans [OF extends_spawn one(1)])
  then have "extends h N w w2" using Cons.IH [OF ns rc] extends_trans by blast
  moreover have "spawned w2 = spawned w @ sh # shs"
    using Cons.IH [OF ns rc] one(2) by simp
  ultimately show ?case using w' by simp
qed








subsection \<open>The executors\<close>

lemma processSequentially_unfold:
  assumes "sequential_loop h (w\<lparr>ticks := Suc (ticks w)\<rparr>) files operation shift = (rs, w2)"
  shows "processSequentially h w files operation shift =
     (\<lparr>results = rs, processingTime = clock h (ticks w2) - clock h (ticks w),
       method_name = ''Sequential''\<rparr>, w2\<lparr>ticks := Suc (ticks w2)\<rparr>)"
  using assms by (simp add: processSequentially_def Date_now_def)

lemma processWithWorkerThreads_unfold:
  assumes "run_workers h (w\<lparr>ticks := Suc (ticks w)\<rparr>) 0
             (partition_files files (min (cpus h) (length files))) operation shift = (ps, w2)"
  shows "processWithWorkerThreads h w files operation shift =
     (case Promise_all (by_arrival h ps) of
        Inl e \<Rightarrow> (Inl e, w2)
      | Inr rs \<Rightarrow>
          (Inr \<lparr>results = rs, processingTime = clock h (ticks w2) - clock h (ticks w),
                method_name = ''Worker Threads''\<rparr>, w2\<lparr>ticks := Suc (ticks w2)\<rparr>))"
  using assms by (simp add: processWithWorkerThreads_def Date_now_def split: sum.splits)


lemma readable_tick: "readable (w\<lparr>ticks := n\<rparr>) files = readable w files"
  unfolding readable_def by simp


lemma concat_partition_min:
  assumes "1 \<le> cpus h"
  shows "concat (partition_files files (min (cpus h) (length files))) = files"
proof (cases "files = []")
  case True
  then show ?thesis
    unfolding partition_files_def Let_def by (simp add: concat_shards)
next
  case False
  then have "1 \<le> min (cpus h) (length files)"
    using assms by (cases files) simp_all
  then show ?thesis by (rule concat_partition_files)
qed





lemma sequential_results:
  "\<exists>w2. sequential_loop h (w\<lparr>ticks := Suc (ticks w)\<rparr>) files operation shift
          = (results (fst (processSequentially h w files operation shift)), w2)
        \<and> snd (processSequentially h w files operation shift) = w2\<lparr>ticks := Suc (ticks w2)\<rparr>
        \<and> processingTime (fst (processSequentially h w files operation shift))
            = clock h (ticks w2) - clock h (ticks w)"
proof -
  obtain rs w2 where lp: "sequential_loop h (w\<lparr>ticks := Suc (ticks w)\<rparr>) files operation shift = (rs, w2)"
    by (cases "sequential_loop h (w\<lparr>ticks := Suc (ticks w)\<rparr>) files operation shift")
  show ?thesis unfolding processSequentially_unfold [OF lp] using lp by simp
qed

lemma worker_outcome:
  assumes "run_workers h (w\<lparr>ticks := Suc (ticks w)\<rparr>) 0
            (partition_files files (min (cpus h) (length files))) operation shift = (ps, w2)"
    and "ps = map Inr msgs"
  shows "\<exists>out. fst (processWithWorkerThreads h w files operation shift) = Inr out
           \<and> mset (results out) = mset (concat msgs)"
proof -
  obtain rs where a: "Promise_all (by_arrival h ps) = Inr rs"
    and m: "mset rs = mset (concat msgs)"
    using settled_ok [OF assms(2)] by blast
  show ?thesis
    unfolding processWithWorkerThreads_unfold [OF assms(1)] a using m by simp
qed

lemma worker_outcome_Inr:
  assumes "run_workers h (w\<lparr>ticks := Suc (ticks w)\<rparr>) 0
            (partition_files files (min (cpus h) (length files))) operation shift = (ps, w2)"
    and "fst (processWithWorkerThreads h w files operation shift) = Inr out"
  shows "\<exists>msgs. ps = map Inr msgs \<and> mset (results out) = mset (concat msgs)
           \<and> processingTime out = clock h (ticks w2) - clock h (ticks w)"
proof (cases "Promise_all (by_arrival h ps)")
  case (Inl e)
  then show ?thesis
    using assms(2) unfolding processWithWorkerThreads_unfold [OF assms(1)] by simp
next
  case (Inr rs)
  then have o: "results out = rs"
      "processingTime out = clock h (ticks w2) - clock h (ticks w)"
    using assms(2) unfolding processWithWorkerThreads_unfold [OF assms(1)] by auto
  obtain msgs where "ps = map Inr msgs" "mset rs = mset (concat msgs)"
    using settled_Inr [OF Inr] by blast
  then show ?thesis using o by auto
qed








lemma workers_run_shards:
  assumes "workers_run h (length shs)"
  shows "\<forall>j < 0 + length shs. worker_error h j = None"
  using assms unfolding workers_run_def by auto



lemma worker_all_names:
  assumes "1 \<le> cpus h" and "readable w files"
    and "outputs_writable h (worker_names h files operation)"
    and "workers_run h (length (partition_files files (min (cpus h) (length files))))"
  shows "\<exists>out. fst (processWithWorkerThreads h w files operation shift) = Inr out
           \<and> mset (map originalName (results out)) = mset (map originalname files)"
proof -
  let ?shs = "partition_files files (min (cpus h) (length files))"
  obtain ps w2 where rw: "run_workers h (w\<lparr>ticks := Suc (ticks w)\<rparr>) 0 ?shs operation shift = (ps, w2)"
    by (cases "run_workers h (w\<lparr>ticks := Suc (ticks w)\<rparr>) 0 ?shs operation shift")
  have c: "concat ?shs = files" by (rule concat_partition_min [OF assms(1)])
  have rd: "readable (w\<lparr>ticks := Suc (ticks w)\<rparr>) (concat ?shs)"
    using assms(2) by (simp add: c readable_tick)
  have ns: "worker_names h (concat ?shs) operation \<subseteq> worker_names h files operation"
    by (simp add: c)
  obtain msgs where ps: "ps = map Inr msgs"
    and n: "map originalName (concat msgs) = map originalname (concat ?shs)"
    using run_workers_all [OF assms(3) rd ns workers_run_shards [OF assms(4)] rw] by blast
  obtain out where o: "fst (processWithWorkerThreads h w files operation shift) = Inr out"
    and m: "mset (results out) = mset (concat msgs)"
    using worker_outcome [OF rw ps] by blast
  have "mset (map originalName (results out)) = mset (map originalName (concat msgs))"
    using m by simp
  then have "mset (map originalName (results out)) = mset (map originalname files)"
    using n c by simp
  with o show ?thesis by blast
qed






subsection \<open>The example host\<close>

lemma posix_host_writable: "outputs_writable (posix_host n) N"
  unfolding outputs_writable_def posix_host_def by simp

lemma uploads_apart: "apart (posix_host n) N (map upload names)"
  unfolding apart_def posix_host_def upload_def by auto

lemma posix_workers_run: "workers_run (posix_host n) m"
  unfolding workers_run_def posix_host_def by simp


lemma uploads_readable: "readable (disk_with names c) (map upload names)"
  unfolding readable_def disk_with_def upload_def
  by (auto simp: map_of_eq_None_iff image_image)

lemma uploads_content:
  "\<forall>f \<in> set (map upload names). disk (disk_with names c) (path f) = Some c"
proof
  fix f assume "f \<in> set (map upload names)"
  then obtain n where n: "n \<in> set names" and f: "f = upload n" by auto
  have "map_of (map (\<lambda>n. (''uploads/'' @ n, c)) names) (''uploads/'' @ n) = Some c"
    using n by (induction names) auto
  then show "disk (disk_with names c) (path f) = Some c"
    unfolding f disk_with_def upload_def by simp
qed

lemma posix_clock_mono: "mono (clock (posix_host n))"
  unfolding mono_def posix_host_def by simp

subsection \<open>More on the executors\<close>

lemma worker_spawned:
  "spawned (snd (processWithWorkerThreads h w files operation shift))
     = spawned w @ partition_files files (min (cpus h) (length files))"
proof -
  let ?shs = "partition_files files (min (cpus h) (length files))"
  obtain ps w2 where rw: "run_workers h (w\<lparr>ticks := Suc (ticks w)\<rparr>) 0 ?shs operation shift = (ps, w2)"
    by (cases "run_workers h (w\<lparr>ticks := Suc (ticks w)\<rparr>) 0 ?shs operation shift")
  have "spawned w2 = spawned w @ ?shs"
    using run_workers_world [OF subset_UNIV rw] by simp
  then show ?thesis
    unfolding processWithWorkerThreads_unfold [OF rw] by (simp split: sum.splits)
qed

lemma worker_elapsed:
  assumes "mono (clock h)"
    and "fst (processWithWorkerThreads h w files operation shift) = Inr out"
  shows "0 \<le> processingTime out"
proof -
  let ?shs = "partition_files files (min (cpus h) (length files))"
  obtain ps w2 where rw: "run_workers h (w\<lparr>ticks := Suc (ticks w)\<rparr>) 0 ?shs operation shift = (ps, w2)"
    by (cases "run_workers h (w\<lparr>ticks := Suc (ticks w)\<rparr>) 0 ?shs operation shift")
  have t: "processingTime out = clock h (ticks w2) - clock h (ticks w)"
    using worker_outcome_Inr [OF rw assms(2)] by blast
  have "extends h UNIV (w\<lparr>ticks := Suc (ticks w)\<rparr>) w2"
    using run_workers_world [OF subset_UNIV rw] by simp
  then have "ticks w \<le> ticks w2"
    using extends_ticks by fastforce
  then have "clock h (ticks w) \<le> clock h (ticks w2)"
    by (rule monoD [OF assms(1)])
  then show ?thesis unfolding t by simp
qed

lemma partition_five:
  "partition_files [a, b, c, d, e] 4 = [[a, b], [c, d], [e]]"
  by (simp add: partition_files_def ceil_div_def shards.simps slice_def
        numeral_2_eq_2 [symmetric])





section \<open>The claims\<close>

text \<open>
  C10. For every string, every shift and both directions \<^verbatim>\<open>caesarCipher\<close> returns a string
  of the length of its input, and leaves every code unit that is not a letter as it is;
  so each result of the sequential executor reports, as its size, the length of the
  content that was written to its path.
\<close>

theorem caesarCipher_length:
  "length (caesarCipher x s d) = length x
   \<and> (\<forall>i < length x. \<not> is_letter (x ! i) \<longrightarrow> caesarCipher x s d ! i = x ! i)
   \<and> (case processSequentially h w files operation shift of
         (out, w') \<Rightarrow>
           map (\<lambda>r. (processedPath r, size_r r)) (results out)
             = map (\<lambda>(p, c). (p, length c)) (drop (length (written w)) (written w')))"
proof (intro conjI)
  show "length (caesarCipher x s d) = length x"
    by (simp add: caesarCipher_def)
  show "\<forall>i < length x. \<not> is_letter (x ! i) \<longrightarrow> caesarCipher x s d ! i = x ! i"
    by (simp add: caesarCipher_def)
  obtain w2 where lp: "sequential_loop h (w\<lparr>ticks := Suc (ticks w)\<rparr>) files operation shift
          = (results (fst (processSequentially h w files operation shift)), w2)"
    and s: "snd (processSequentially h w files operation shift) = w2\<lparr>ticks := Suc (ticks w2)\<rparr>"
    using sequential_results by blast
  obtain new where new: "written w2 = written (w\<lparr>ticks := Suc (ticks w)\<rparr>) @ new"
    "map (\<lambda>r. (processedPath r, size_r r)) (results (fst (processSequentially h w files operation shift)))
       = map (\<lambda>(p, c). (p, length c)) new"
    using sequential_loop_written [OF lp] by blast
  have "drop (length (written w)) (written (snd (processSequentially h w files operation shift))) = new"
    unfolding s using new(1) by simp
  then show "case processSequentially h w files operation shift of
         (out, w') \<Rightarrow>
           map (\<lambda>r. (processedPath r, size_r r)) (results out)
             = map (\<lambda>(p, c). (p, length c)) (drop (length (written w)) (written w'))"
    using new(2) by (simp add: case_prod_unfold)
qed

theorem caesarCipher_length_witness:
  "length (caesarCipher (js ''Hello, World'') 3 False) = length (js ''Hello, World'')
   \<and> caesarCipher (js ''Hello, World'') 3 False ! 5 = js ''Hello, World'' ! 5
   \<and> caesarCipher (js ''Hello, World'') 3 False = js ''Khoor, Zruog''"
proof -
  have e: "caesarCipher (js ''Hello, World'') 3 False = js ''Khoor, Zruog''"
    by (simp add: caesarCipher_def js_def is_letter_def shift_char_def js_rem_def fromCharCode_def)
  have n: "5 < length (js ''Hello, World'') \<and> \<not> is_letter (js ''Hello, World'' ! 5)"
    by (simp add: js_def is_letter_def)
  from caesarCipher_length [of "js ''Hello, World''" 3 False] n e show ?thesis by simp
qed

text \<open>
  C9. Five files that each contain \<open>Hello\<close>, encrypted sequentially with shift 3: the
  outcome has five results, one per job and in order, so that no job failed; every one
  of the five writes has the content \<open>Khoor\<close>, and every path a result names holds
  \<open>Khoor\<close>. The five sources hold \<open>Hello\<close>; the output names the batch can build for
  its five jobs are writable, and none of them is the path of a source.
\<close>

theorem scenario_sequential_hello:
  assumes "length files = 5"
    and "\<forall>f \<in> set files. disk w (path f) = Some (js ''Hello'')"
    and "outputs_writable h (sequential_names h files ''encrypt'')"
    and "apart h (sequential_names h files ''encrypt'') files"
  shows "case processSequentially h w files ''encrypt'' 3 of
           (out, w') \<Rightarrow>
             length (results out) = 5
             \<and> map originalName (results out) = map originalname files
             \<and> map snd (drop (length (written w)) (written w')) = replicate 5 (js ''Khoor'')
             \<and> (\<forall>r \<in> set (results out). disk w' (processedPath r) = Some (js ''Khoor''))
             \<and> method_name out = ''Sequential''"
proof -
  let ?out = "fst (processSequentially h w files ''encrypt'' 3)"
  let ?w' = "snd (processSequentially h w files ''encrypt'' 3)"
  let ?w1 = "w\<lparr>ticks := Suc (ticks w)\<rparr>"
  have k: "caesarCipher (js ''Hello'') 3 (''encrypt'' = ''decrypt'') = js ''Khoor''"
    by (simp add: caesarCipher_def js_def is_letter_def shift_char_def js_rem_def fromCharCode_def)
  obtain w2 where lp: "sequential_loop h ?w1 files ''encrypt'' 3 = (results ?out, w2)"
    and s: "?w' = w2\<lparr>ticks := Suc (ticks w2)\<rparr>"
    using sequential_results by blast
  have src: "\<forall>f \<in> set files. disk ?w1 (path f) = Some (js ''Hello'')"
    using assms(2) by simp
  note sc = sequential_loop_same_content [OF assms(3) src assms(4) subset_refl lp, unfolded k]
  from sc have names: "map originalName (results ?out) = map originalname files" by blast
  from sc obtain new where new: "written w2 = written ?w1 @ new"
    "map snd new = replicate (length files) (js ''Khoor'')" by blast
  from sc have dk: "\<forall>r \<in> set (results ?out). disk w2 (processedPath r) = Some (js ''Khoor'')"
    by blast
  have 1: "length (results ?out) = 5"
    using names assms(1) by (metis length_map)
  have 3: "map snd (drop (length (written w)) (written ?w')) = replicate 5 (js ''Khoor'')"
    unfolding s using new assms(1) by simp
  have 4: "\<forall>r \<in> set (results ?out). disk ?w' (processedPath r) = Some (js ''Khoor'')"
    unfolding s using dk by simp
  have 5: "method_name ?out = ''Sequential''"
    by (simp add: processSequentially_def split: prod.splits)
  from 1 names 3 4 5 show ?thesis by (simp add: case_prod_unfold)
qed

theorem scenario_sequential_hello_witness:
  "length (map upload [''1.txt'', ''2.txt'', ''3.txt'', ''4.txt'', ''5.txt'']) = 5
   \<and> outputs_writable (posix_host 4)
        (sequential_names (posix_host 4)
           (map upload [''1.txt'', ''2.txt'', ''3.txt'', ''4.txt'', ''5.txt'']) ''encrypt'')
   \<and> apart (posix_host 4)
        (sequential_names (posix_host 4)
           (map upload [''1.txt'', ''2.txt'', ''3.txt'', ''4.txt'', ''5.txt'']) ''encrypt'')
        (map upload [''1.txt'', ''2.txt'', ''3.txt'', ''4.txt'', ''5.txt''])
   \<and> (case processSequentially (posix_host 4)
              (disk_with [''1.txt'', ''2.txt'', ''3.txt'', ''4.txt'', ''5.txt''] (js ''Hello''))
              (map upload [''1.txt'', ''2.txt'', ''3.txt'', ''4.txt'', ''5.txt'']) ''encrypt'' 3 of
         (out, w') \<Rightarrow>
           map originalName (results out) = [''1.txt'', ''2.txt'', ''3.txt'', ''4.txt'', ''5.txt'']
           \<and> map snd (written w') = replicate 5 (js ''Khoor''))"
proof -
  let ?names = "[''1.txt'', ''2.txt'', ''3.txt'', ''4.txt'', ''5.txt'']"
  have l: "length (map upload ?names) = 5" by simp
  have w0: "written (disk_with ?names (js ''Hello'')) = []" by (simp add: disk_with_def)
  have n: "map originalname (map upload ?names) = ?names" by (simp add: upload_def)
  have "case processSequentially (posix_host 4) (disk_with ?names (js ''Hello''))
              (map upload ?names) ''encrypt'' 3 of
         (out, w') \<Rightarrow>
           map originalName (results out) = ?names
           \<and> map snd (written w') = replicate 5 (js ''Khoor'')"
    using scenario_sequential_hello [OF l uploads_content [of ?names "js ''Hello''"]
        posix_host_writable [of 4] uploads_apart [of 4]]
    unfolding w0 n by (simp add: case_prod_unfold)
  then show ?thesis
    using l posix_host_writable uploads_apart by blast
qed

text \<open>
  C8. A request without files (the field missing, not an array, or empty) is answered
  with status 400 and \<open>No files provided\<close>; a request with an unknown method is answered
  with status 400, and with \<open>Invalid processing method\<close> when it has files. In both
  cases the world is unchanged: no clock was read, nothing was written and no shard was
  handed out.
\<close>

theorem route_rejects_early:
  "((body_files b = None \<or> body_files b = Some []) \<longrightarrow>
       process_route h w b = (Failure 400 ''No files provided'' None, w))
   \<and> (body_method b \<notin> {''multithreading'', ''multiprocessing'', ''sequential''} \<longrightarrow>
       (\<exists>msg. process_route h w b = (Failure 400 msg None, w)))
   \<and> (body_method b \<notin> {''multithreading'', ''multiprocessing'', ''sequential''}
        \<and> body_files b \<noteq> None \<and> body_files b \<noteq> Some [] \<longrightarrow>
       process_route h w b = (Failure 400 ''Invalid processing method'' None, w))"
  unfolding process_route_def Let_def
  by (cases "body_files b") auto

theorem route_rejects_early_witness:
  "process_route (posix_host 4) (disk_with [] [])
      \<lparr>body_files = Some [], body_operation = ''encrypt'', body_method = ''sequential'',
        body_shift = None\<rparr>
     = (Failure 400 ''No files provided'' None, disk_with [] [])
   \<and> process_route (posix_host 4) (disk_with [] [])
      \<lparr>body_files = Some [upload ''a.txt''], body_operation = ''encrypt'',
        body_method = ''parallel'', body_shift = None\<rparr>
     = (Failure 400 ''Invalid processing method'' None, disk_with [] [])"
  using route_rejects_early [of "\<lparr>body_files = Some [], body_operation = ''encrypt'',
          body_method = ''sequential'', body_shift = None\<rparr>" "posix_host 4" "disk_with [] []"]
    route_rejects_early [of "\<lparr>body_files = Some [upload ''a.txt''], body_operation = ''encrypt'',
          body_method = ''parallel'', body_shift = None\<rparr>" "posix_host 4" "disk_with [] []"]
  by simp










text \<open>
  C5 (amended). Five files processed by the thread executor on a host with four cores:
  the worker count computed is 4, the slice size is 2 and the shards handed to workers
  have the sizes \<open>[2, 2, 1]\<close> (the fourth slice is empty and no worker is created for
  it), whatever the state of the files. When the five sources are readable, the output
  names the batch can build are writable and none of the three workers emits an error,
  the outcome has five results, one per job. The elapsed time of an outcome is not
  negative when the clock does not go backwards.
\<close>

theorem scenario_threads_five_files:
  assumes "length files = 5" and "cpus h = 4"
  shows "min (cpus h) (length files) = 4
    \<and> ceil_div (length files) (min (cpus h) (length files)) = 2
    \<and> map length (partition_files files (min (cpus h) (length files))) = [2, 2, 1]
    \<and> map length (drop (length (spawned w))
          (spawned (snd (processWithWorkerThreads h w files operation shift)))) = [2, 2, 1]
    \<and> (readable w files \<and> outputs_writable h (worker_names h files operation)
         \<and> workers_run h 3 \<longrightarrow>
         (\<exists>out. fst (processWithWorkerThreads h w files operation shift) = Inr out
            \<and> length (results out) = 5
            \<and> mset (map originalName (results out)) = mset (map originalname files)))
    \<and> (\<forall>out. mono (clock h)
           \<and> fst (processWithWorkerThreads h w files operation shift) = Inr out \<longrightarrow>
         0 \<le> processingTime out)"
proof -
  let ?res = "processWithWorkerThreads h w files operation shift"
  obtain a b c d e where files: "files = [a, b, c, d, e]"
    using assms(1) by (auto simp: eval_nat_numeral length_Suc_conv)
  have k: "min (cpus h) (length files) = 4" using assms(1,2) by simp
  have p: "partition_files files (min (cpus h) (length files)) = [[a, b], [c, d], [e]]"
    unfolding k unfolding files by (rule partition_five)
  have 1: "ceil_div (length files) (min (cpus h) (length files)) = 2"
    using assms by (simp add: ceil_div_def)
  have 2: "map length (partition_files files (min (cpus h) (length files))) = [2, 2, 1]"
    unfolding p by simp
  have "spawned (snd ?res) = spawned w @ [[a, b], [c, d], [e]]"
    unfolding worker_spawned p ..
  then have 3: "map length (drop (length (spawned w)) (spawned (snd ?res))) = [2, 2, 1]"
    by simp
  have 4: "\<exists>out. fst ?res = Inr out \<and> length (results out) = 5
            \<and> mset (map originalName (results out)) = mset (map originalname files)"
    if a: "readable w files \<and> outputs_writable h (worker_names h files operation)
         \<and> workers_run h 3"
  proof -
    have c1: "1 \<le> cpus h" using assms(2) by simp
    have wr: "workers_run h (length (partition_files files (min (cpus h) (length files))))"
      unfolding p using a by (simp add: numeral_3_eq_3)
    obtain out where o: "fst ?res = Inr out"
      and m: "mset (map originalName (results out)) = mset (map originalname files)"
      using worker_all_names [OF c1 _ _ wr, of w operation shift] a by blast
    have "length (map originalName (results out)) = length (map originalname files)"
      by (rule mset_eq_length [OF m])
    then have "length (results out) = 5" using assms(1) by simp
    with o m show ?thesis by blast
  qed
  have 5: "\<forall>out. mono (clock h) \<and> fst ?res = Inr out \<longrightarrow> 0 \<le> processingTime out"
    using worker_elapsed by blast
  from k 1 2 3 4 5 show ?thesis by blast
qed

theorem scenario_threads_five_files_witness:
  "length (map upload [''1.txt'', ''2.txt'', ''3.txt'', ''4.txt'', ''5.txt'']) = 5
   \<and> cpus (posix_host 4) = 4
   \<and> readable (disk_with [''1.txt'', ''2.txt'', ''3.txt'', ''4.txt'', ''5.txt''] (js ''Hello''))
        (map upload [''1.txt'', ''2.txt'', ''3.txt'', ''4.txt'', ''5.txt''])
   \<and> outputs_writable (posix_host 4)
        (worker_names (posix_host 4)
           (map upload [''1.txt'', ''2.txt'', ''3.txt'', ''4.txt'', ''5.txt'']) ''encrypt'')
   \<and> workers_run (posix_host 4) 3 \<and> mono (clock (posix_host 4))
   \<and> map length (spawned (snd (processWithWorkerThreads (posix_host 4)
              (disk_with [''1.txt'', ''2.txt'', ''3.txt'', ''4.txt'', ''5.txt''] (js ''Hello''))
              (map upload [''1.txt'', ''2.txt'', ''3.txt'', ''4.txt'', ''5.txt'']) ''encrypt'' 3)))
       = [2, 2, 1]
   \<and> (\<exists>out. fst (processWithWorkerThreads (posix_host 4)
              (disk_with [''1.txt'', ''2.txt'', ''3.txt'', ''4.txt'', ''5.txt''] (js ''Hello''))
              (map upload [''1.txt'', ''2.txt'', ''3.txt'', ''4.txt'', ''5.txt'']) ''encrypt'' 3)
            = Inr out
          \<and> length (results out) = 5 \<and> 0 \<le> processingTime out)"
proof -
  let ?names = "[''1.txt'', ''2.txt'', ''3.txt'', ''4.txt'', ''5.txt'']"
  let ?h = "posix_host 4"
  let ?w = "disk_with ?names (js ''Hello'')"
  let ?res = "processWithWorkerThreads ?h ?w (map upload ?names) ''encrypt'' 3"
  have l: "length (map upload ?names) = 5" by simp
  have c: "cpus ?h = 4" by (simp add: posix_host_def)
  have r: "readable ?w (map upload ?names)" by (rule uploads_readable)
  have ow: "outputs_writable ?h (worker_names ?h (map upload ?names) ''encrypt'')"
    by (rule posix_host_writable)
  have wr: "workers_run ?h 3" by (rule posix_workers_run)
  have mo: "mono (clock ?h)" by (rule posix_clock_mono)
  have s: "spawned ?w = []" by (simp add: disk_with_def)
  note th = scenario_threads_five_files [OF l c, of ?w "''encrypt''" 3]
  from th have "map length (drop (length (spawned ?w)) (spawned (snd ?res))) = [2, 2, 1]"
    by blast
  then have 1: "map length (spawned (snd ?res)) = [2, 2, 1]"
    unfolding s by simp
  from th r ow wr obtain out where o: "fst ?res = Inr out" and n: "length (results out) = 5"
    by blast
  from th mo o have "0 \<le> processingTime out" by blast
  with o n have 2: "\<exists>out. fst ?res = Inr out \<and> length (results out) = 5 \<and> 0 \<le> processingTime out"
    by blast
  from l c r ow wr mo 1 2 show ?thesis by blast
qed

text \<open>
  C5 (as stated) fails: with five files and four cores the slice size is
  \<open>ceil(5 / 4) = 2\<close>, so the shards handed to workers have the sizes \<open>[2, 2, 1]\<close>, not
  \<open>[2, 1, 1, 1]\<close>, and three workers run, not four.
\<close>

theorem shard_sizes_counterexample:
  "map length (spawned (snd (processWithWorkerThreads (posix_host 4)
      (disk_with [''1.txt'', ''2.txt'', ''3.txt'', ''4.txt'', ''5.txt''] (js ''Hello''))
      (map upload [''1.txt'', ''2.txt'', ''3.txt'', ''4.txt'', ''5.txt'']) ''encrypt'' 3)))
    = [2, 2, 1]
   \<and> map length (spawned (snd (processWithWorkerThreads (posix_host 4)
      (disk_with [''1.txt'', ''2.txt'', ''3.txt'', ''4.txt'', ''5.txt''] (js ''Hello''))
      (map upload [''1.txt'', ''2.txt'', ''3.txt'', ''4.txt'', ''5.txt'']) ''encrypt'' 3)))
    \<noteq> [2, 1, 1, 1]"
proof -
  have "min (cpus (posix_host 4))
      (length (map upload [''1.txt'', ''2.txt'', ''3.txt'', ''4.txt'', ''5.txt''])) = 4"
    by (simp add: posix_host_def)
  then show ?thesis
    unfolding worker_spawned by (simp add: partition_five disk_with_def)
qed




end
